theory Spec2Isabelle
  imports Main "HOL-Library.Sublist" "HOL-Library.List_Lexorder" "HOL-Library.Multiset"
begin

section \<open>Strings\<close>

text \<open>
  A Python \<open>str\<close> is a sequence of Unicode code points: a list of natural numbers. The
  string comparison of \<open>sorted\<close> is the lexicographic order on the code points, which is
  the order that the imported theory gives to lists. A literal of the source is written
  \<open>lit ''...''\<close>, and one character of it \<open>cp CHR ''...''\<close>.
\<close>

type_synonym ustring = "nat list"

abbreviation cp :: "char \<Rightarrow> nat" where
  "cp c \<equiv> of_char c"

abbreviation lit :: "string \<Rightarrow> ustring" where
  "lit s \<equiv> map of_char s"

text \<open>\<open>str.isspace\<close> on one code point: tab to carriage return, the separators 28 to 31,
  the space, NEL, the no-break space, the Ogham space mark, the spaces U+2000 to U+200A,
  the line and the paragraph separator, the narrow no-break space, the medium mathematical
  space and the ideographic space.\<close>

definition isspace :: "nat \<Rightarrow> bool" where
  "isspace c =
     ((9 \<le> c \<and> c \<le> 13) \<or> (28 \<le> c \<and> c \<le> 32) \<or> c = 133 \<or> c = 160 \<or> c = 5760
      \<or> (8192 \<le> c \<and> c \<le> 8202) \<or> c = 8232 \<or> c = 8233 \<or> c = 8239 \<or> c = 8287
      \<or> c = 12288)"

text \<open>\<open>s.strip()\<close>: whitespace removed at both ends.\<close>

definition strip :: "ustring \<Rightarrow> ustring" where
  "strip s = dropWhile isspace (rev (dropWhile isspace (rev s)))"

text \<open>
  \<open>str.lower\<close> reads three tables of the Unicode character database of the interpreter:
  the full lower-case mapping of a code point (one to three code points), and the
  properties Cased and Case_Ignorable. The tables are a parameter of the model.
\<close>

record ucd =
  to_lower_full :: "nat \<Rightarrow> ustring"
  is_cased :: "nat \<Rightarrow> bool"
  is_case_ignorable :: "nat \<Rightarrow> bool"

text \<open>The capital sigma (931) becomes the final small sigma (962) when a cased letter
  stands before it and none after it, case-ignorable characters passed over on both
  sides; otherwise it becomes the small sigma (963). The characters before the sigma are
  given from the nearest one backwards.\<close>

definition handle_capital_sigma :: "ucd \<Rightarrow> ustring \<Rightarrow> ustring \<Rightarrow> nat" where
  "handle_capital_sigma u preceding following =
     (let b = dropWhile (is_case_ignorable u) preceding in
      if b \<noteq> [] \<and> is_cased u (hd b) then
        (let a = dropWhile (is_case_ignorable u) following in
         if a = [] \<or> \<not> is_cased u (hd a) then 962 else 963)
      else 963)"

fun lower_loop :: "ucd \<Rightarrow> ustring \<Rightarrow> ustring \<Rightarrow> ustring" where
  "lower_loop u preceding [] = []"
| "lower_loop u preceding (c # rest) =
     (if c = 931 then [handle_capital_sigma u preceding rest] else to_lower_full u c)
     @ lower_loop u (c # preceding) rest"

definition lower :: "ucd \<Rightarrow> ustring \<Rightarrow> ustring" where
  "lower u s = lower_loop u [] s"

text \<open>\<open>needle in haystack\<close> on strings: the needle occurs as a contiguous block.\<close>

fun str_in :: "ustring \<Rightarrow> ustring \<Rightarrow> bool" where
  "str_in needle [] = (needle = [])"
| "str_in needle (c # cs) = (prefix needle (c # cs) \<or> str_in needle cs)"

text \<open>\<open>s.endswith(suffix)\<close>.\<close>

definition endswith :: "ustring \<Rightarrow> ustring \<Rightarrow> bool" where
  "endswith s suf = (length suf \<le> length s \<and> drop (length s - length suf) s = suf)"

text \<open>\<open>line.split(':', 1)\<close> on a line that contains a colon: the text before the first
  colon and the text after it.\<close>

definition split_colon :: "ustring \<Rightarrow> ustring \<times> ustring" where
  "split_colon line =
     (takeWhile (\<lambda>c. c \<noteq> cp CHR '':'') line, tl (dropWhile (\<lambda>c. c \<noteq> cp CHR '':'') line))"

text \<open>\<open>d.get(key, default)\<close>.\<close>

definition get_default :: "('k \<rightharpoonup> 'v) \<Rightarrow> 'k \<Rightarrow> 'v \<Rightarrow> 'v" where
  "get_default d k dflt = (case d k of None \<Rightarrow> dflt | Some v \<Rightarrow> v)"

section \<open>The file system\<close>

datatype error =
  FileNotFoundError | NotADirectoryError | IsADirectoryError | PermissionError
  | UnicodeDecodeError

text \<open>
  The file system is a tree from the top directory \<open>/\<close>, case-sensitive and without
  symbolic links. A regular file is given by what iterating over it in text mode does:
  the lines it delivers (each with its line terminator) and the error it raises after
  them, if any; a file that cannot be opened delivers no line and raises at once, a file
  with undecodable bytes raises when the block of the file that holds them is decoded.
  A directory carries its two permissions, to list it and to search it (to reach what
  it holds), and its children in the order \<open>iterdir\<close> reports them.
\<close>

datatype node =
  File "ustring list" "error option"
  | Dir bool bool "(ustring \<times> node) list"

text \<open>A path is the list of its components below \<open>/\<close>; a component \<open>..\<close> stays in
  the path, as in \<open>pathlib\<close>, and is followed when the path is looked up.\<close>

type_synonym path = "ustring list"

record filesystem =
  tree :: node
  repo_root :: path

text \<open>Looking a path up, one component at a time; the first argument holds the node
  reached and its ancestors. A step into a directory needs the permission to search
  it.\<close>

fun walk :: "node list \<Rightarrow> path \<Rightarrow> error + node" where
  "walk [] cs = Inl FileNotFoundError"
| "walk (cur # anc) [] = Inr cur"
| "walk (cur # anc) (c # cs) =
     (case cur of
        File _ _ \<Rightarrow> Inl NotADirectoryError
      | Dir listable searchable kids \<Rightarrow>
          if \<not> searchable then Inl PermissionError
          else if c = lit ''..'' then walk (if anc = [] then [cur] else anc) cs
          else (case map_of kids c of
                  None \<Rightarrow> Inl FileNotFoundError
                | Some n \<Rightarrow> walk (n # cur # anc) cs))"

text \<open>\<open>Path.stat\<close>.\<close>

definition stat :: "filesystem \<Rightarrow> path \<Rightarrow> error + node" where
  "stat fs p = walk [tree fs] p"

text \<open>The errors that \<open>Path.exists\<close> and \<open>Path.is_dir\<close> turn into the answer
  \<open>False\<close>; they raise any other error of \<open>stat\<close>.\<close>

definition ignore_error :: "error \<Rightarrow> bool" where
  "ignore_error e = (e = FileNotFoundError \<or> e = NotADirectoryError)"

definition exists :: "filesystem \<Rightarrow> path \<Rightarrow> error + bool" where
  "exists fs p =
     (case stat fs p of
        Inr _ \<Rightarrow> Inr True
      | Inl e \<Rightarrow> if ignore_error e then Inr False else Inl e)"

definition is_dir :: "filesystem \<Rightarrow> path \<Rightarrow> error + bool" where
  "is_dir fs p =
     (case stat fs p of
        Inr (Dir _ _ _) \<Rightarrow> Inr True
      | Inr (File _ _) \<Rightarrow> Inr False
      | Inl e \<Rightarrow> if ignore_error e then Inr False else Inl e)"

text \<open>\<open>Path.iterdir\<close>: the names of the children.\<close>

definition iterdir :: "filesystem \<Rightarrow> path \<Rightarrow> error + ustring list" where
  "iterdir fs p =
     (case stat fs p of
        Inl e \<Rightarrow> Inl e
      | Inr (File _ _) \<Rightarrow> Inl NotADirectoryError
      | Inr (Dir listable searchable kids) \<Rightarrow>
          if listable then Inr (map fst kids) else Inl PermissionError)"

text \<open>The lines of a file that opens and is iterated to its end without an error.\<close>

definition open_lines :: "filesystem \<Rightarrow> path \<Rightarrow> error + ustring list" where
  "open_lines fs p =
     (case stat fs p of
        Inl e \<Rightarrow> Inl e
      | Inr (Dir _ _ _) \<Rightarrow> Inl IsADirectoryError
      | Inr (File ls None) \<Rightarrow> Inr ls
      | Inr (File ls (Some e)) \<Rightarrow> Inl e)"

text \<open>Splitting a string at a separator character.\<close>

fun split_sep :: "nat \<Rightarrow> ustring \<Rightarrow> ustring list" where
  "split_sep sep [] = [[]]"
| "split_sep sep (c # cs) =
     (if c = sep then [] # split_sep sep cs
      else (case split_sep sep cs of [] \<Rightarrow> [[c]] | w # ws \<Rightarrow> (c # w) # ws))"

text \<open>The components \<open>pathlib\<close> keeps of a string: empty components and \<open>.\<close> are
  dropped.\<close>

definition parts :: "ustring \<Rightarrow> path" where
  "parts s = filter (\<lambda>c. c \<noteq> [] \<and> c \<noteq> lit ''.'') (split_sep (cp CHR ''/'') s)"

text \<open>\<open>p / s\<close>: an absolute \<open>s\<close> replaces \<open>p\<close>.\<close>

definition joinpath :: "path \<Rightarrow> ustring \<Rightarrow> path" where
  "joinpath p s = (if s \<noteq> [] \<and> hd s = cp CHR ''/'' then parts s else p @ parts s)"

section \<open>The skill loader\<close>

record skill =
  directory :: ustring
  path :: path
  name :: ustring
  description :: ustring
  version :: ustring
  activation :: ustring

definition get_repo_root :: "filesystem \<Rightarrow> path" where
  "get_repo_root fs = repo_root fs"

text \<open>The loop of \<open>parse_frontmatter\<close> over the lines that the file delivers: the
  mapping it has built when it ends.\<close>

fun parse_loop ::
  "bool \<Rightarrow> (ustring \<rightharpoonup> ustring) \<Rightarrow> ustring list \<Rightarrow> (ustring \<rightharpoonup> ustring)" where
  "parse_loop in_frontmatter metadata [] = metadata"
| "parse_loop in_frontmatter metadata (raw # rest) =
     (let line = strip raw in
      if line = lit ''---'' then
        (if \<not> in_frontmatter then parse_loop True metadata rest else metadata)
      else if in_frontmatter \<and> cp CHR '':'' \<in> set line then
        (case split_colon line of
           (key, val) \<Rightarrow> parse_loop in_frontmatter (metadata(strip key \<mapsto> strip val)) rest)
      else parse_loop in_frontmatter metadata rest)"

text \<open>Whether the same loop leaves by its \<open>break\<close> within these lines; it then asks the
  file for no further line.\<close>

fun loop_breaks :: "bool \<Rightarrow> ustring list \<Rightarrow> bool" where
  "loop_breaks in_frontmatter [] = False"
| "loop_breaks in_frontmatter (raw # rest) =
     (let line = strip raw in
      if line = lit ''---'' then
        (if \<not> in_frontmatter then loop_breaks True rest else True)
      else loop_breaks in_frontmatter rest)"

text \<open>\<open>parse_frontmatter\<close>: \<open>open\<close> raises for a directory; the loop raises the error of
  the file when it comes to the end of the delivered lines without having left.\<close>

definition parse_frontmatter :: "filesystem \<Rightarrow> path \<Rightarrow> error + (ustring \<rightharpoonup> ustring)" where
  "parse_frontmatter fs skill_path =
     (case stat fs skill_path of
        Inl e \<Rightarrow> Inl e
      | Inr (Dir _ _ _) \<Rightarrow> Inl IsADirectoryError
      | Inr (File ls failure) \<Rightarrow>
          if loop_breaks False ls then Inr (parse_loop False Map.empty ls)
          else (case failure of
                  None \<Rightarrow> Inr (parse_loop False Map.empty ls)
                | Some e \<Rightarrow> Inl e))"

text \<open>The loop of \<open>get_all_skills\<close> over the children of the root; an exception of
  \<open>is_dir\<close>, \<open>exists\<close> or \<open>parse_frontmatter\<close> leaves the loop and the function.\<close>

fun scan_items ::
  "filesystem \<Rightarrow> path \<Rightarrow> ustring list \<Rightarrow> skill list \<Rightarrow> error + skill list" where
  "scan_items fs root [] skills = Inr skills"
| "scan_items fs root (item # items) skills =
     (case is_dir fs (root @ [item]) of
        Inl e \<Rightarrow> Inl e
      | Inr d \<Rightarrow>
          if d \<and> endswith item (lit ''-skill'') then
            (let skill_md = root @ [item, lit ''SKILL.md''] in
             case exists fs skill_md of
               Inl e \<Rightarrow> Inl e
             | Inr found \<Rightarrow>
                 if found then
                   (case parse_frontmatter fs skill_md of
                      Inl e \<Rightarrow> Inl e
                    | Inr metadata \<Rightarrow>
                        scan_items fs root items
                          (skills @
                           [\<lparr>directory = item,
                             path = skill_md,
                             name = get_default metadata (lit ''name'') item,
                             description =
                               get_default metadata (lit ''description'') (lit ''No description''),
                             version = get_default metadata (lit ''version'') (lit ''1.0''),
                             activation = get_default metadata (lit ''activation'') (lit '''')\<rparr>]))
                 else scan_items fs root items skills)
          else scan_items fs root items skills)"

definition get_all_skills :: "filesystem \<Rightarrow> error + skill list" where
  "get_all_skills fs =
     (let repo_root = get_repo_root fs in
      case iterdir fs repo_root of
        Inl e \<Rightarrow> Inl e
      | Inr items \<Rightarrow>
          (case scan_items fs repo_root items [] of
             Inl e \<Rightarrow> Inl e
           | Inr skills \<Rightarrow> Inr (sort_key name skills)))"

text \<open>\<open>search_skills\<close>: the list \<open>matches\<close> that the function prints.\<close>

definition search_skills :: "ucd \<Rightarrow> filesystem \<Rightarrow> ustring \<Rightarrow> error + skill list" where
  "search_skills u fs keyword =
     (case get_all_skills fs of
        Inl e \<Rightarrow> Inl e
      | Inr skills \<Rightarrow>
          (let keyword_lower = lower u keyword in
           Inr (filter (\<lambda>skill. str_in keyword_lower (lower u (name skill))
                              \<or> str_in keyword_lower (lower u (description skill))
                              \<or> str_in keyword_lower (lower u (activation skill))) skills)))"

text \<open>The last loop of \<open>find_skill_path\<close>: the first skill whose name contains the
  input.\<close>

fun fuzzy_loop :: "ucd \<Rightarrow> ustring \<Rightarrow> skill list \<Rightarrow> path option" where
  "fuzzy_loop u skill_name [] = None"
| "fuzzy_loop u skill_name (skill # skills) =
     (if str_in (lower u skill_name) (lower u (name skill)) then Some (path skill)
      else fuzzy_loop u skill_name skills)"

definition fuzzy_match :: "ucd \<Rightarrow> filesystem \<Rightarrow> ustring \<Rightarrow> error + path option" where
  "fuzzy_match u fs skill_name =
     (case get_all_skills fs of
        Inl e \<Rightarrow> Inl e
      | Inr skills \<Rightarrow> Inr (fuzzy_loop u skill_name skills))"

text \<open>The test \<open>skill_dir.exists() and (skill_dir / "SKILL.md").exists()\<close>.\<close>

definition holds_document :: "filesystem \<Rightarrow> path \<Rightarrow> error + bool" where
  "holds_document fs skill_dir =
     (case exists fs skill_dir of
        Inl e \<Rightarrow> Inl e
      | Inr found \<Rightarrow> if found then exists fs (skill_dir @ [lit ''SKILL.md'']) else Inr False)"

definition find_skill_path :: "ucd \<Rightarrow> filesystem \<Rightarrow> ustring \<Rightarrow> error + path option" where
  "find_skill_path u fs skill_name =
     (let repo_root = get_repo_root fs;
          skill_dir = joinpath repo_root skill_name in
      case holds_document fs skill_dir of
        Inl e \<Rightarrow> Inl e
      | Inr found \<Rightarrow>
          if found then Inr (Some (skill_dir @ [lit ''SKILL.md'']))
          else if \<not> endswith skill_name (lit ''-skill'') then
            (let skill_dir2 = joinpath repo_root (skill_name @ lit ''-skill'') in
             case holds_document fs skill_dir2 of
               Inl e \<Rightarrow> Inl e
             | Inr found2 \<Rightarrow>
                 if found2 then Inr (Some (skill_dir2 @ [lit ''SKILL.md'']))
                 else fuzzy_match u fs skill_name)
          else fuzzy_match u fs skill_name)"

section \<open>Predicates and examples for the statements\<close>

text \<open>A child of the root for which \<open>get_all_skills\<close> reads a document: a directory whose
  name ends in \<open>-skill\<close> and that holds something named \<open>SKILL.md\<close>.\<close>

definition candidate :: "filesystem \<Rightarrow> path \<Rightarrow> ustring \<Rightarrow> bool" where
  "candidate fs root item =
     (is_dir fs (root @ [item]) = Inr True \<and> endswith item (lit ''-skill'')
      \<and> exists fs (root @ [item, lit ''SKILL.md'']) = Inr True)"

text \<open>The pass of the loop of \<open>get_all_skills\<close> for this child raises this error: one of
  its two probes raises it, or the read of the document does.\<close>

definition item_raises :: "filesystem \<Rightarrow> path \<Rightarrow> ustring \<Rightarrow> error \<Rightarrow> bool" where
  "item_raises fs root item e =
     (is_dir fs (root @ [item]) = Inl e
      \<or> (is_dir fs (root @ [item]) = Inr True \<and> endswith item (lit ''-skill'')
          \<and> (exists fs (root @ [item, lit ''SKILL.md'']) = Inl e
              \<or> (exists fs (root @ [item, lit ''SKILL.md'']) = Inr True
                  \<and> parse_frontmatter fs (root @ [item, lit ''SKILL.md'']) = Inl e))))"

text \<open>The lower-cased keyword is a contiguous block of the lower-cased text.\<close>

definition lower_contains :: "ucd \<Rightarrow> ustring \<Rightarrow> ustring \<Rightarrow> bool" where
  "lower_contains u keyword txt = (\<exists>pre post. lower u txt = pre @ lower u keyword @ post)"

text \<open>Two code points are the same letter of the Basic Latin alphabet up to case; a text
  contains a keyword up to the case of these letters.\<close>

definition same_letter :: "nat \<Rightarrow> nat \<Rightarrow> bool" where
  "same_letter c d =
     (c = d \<or> (65 \<le> c \<and> c \<le> 90 \<and> d = c + 32) \<or> (65 \<le> d \<and> d \<le> 90 \<and> c = d + 32))"

definition ci_substring :: "ustring \<Rightarrow> ustring \<Rightarrow> bool" where
  "ci_substring keyword txt =
     (\<exists>pre w post. txt = pre @ w @ post \<and> list_all2 same_letter w keyword)"

definition is_ascii :: "ustring \<Rightarrow> bool" where
  "is_ascii s = (\<forall>c\<in>set s. c < 128)"

text \<open>What every Unicode character database says of the code points below 128: the
  letters A to Z move up by 32 and nothing else changes.\<close>

definition ascii_table :: "ucd \<Rightarrow> bool" where
  "ascii_table u =
     (\<forall>c<128. to_lower_full u c = [if 65 \<le> c \<and> c \<le> 90 then c + 32 else c])"

text \<open>The entries of the database for the Basic Latin block and for the Greek letters
  from U+0391 to U+03C9, the only code points of the examples below.\<close>

definition example_ucd :: ucd where
  "example_ucd =
     \<lparr>to_lower_full =
        (\<lambda>c. if (65 \<le> c \<and> c \<le> 90) \<or> (913 \<le> c \<and> c \<le> 939 \<and> c \<noteq> 930) then [c + 32] else [c]),
      is_cased =
        (\<lambda>c. (65 \<le> c \<and> c \<le> 90) \<or> (97 \<le> c \<and> c \<le> 122) \<or> (913 \<le> c \<and> c \<le> 969 \<and> c \<noteq> 930)),
      is_case_ignorable = (\<lambda>c. c = 39 \<or> c = 46 \<or> c = 58 \<or> c = 94 \<or> c = 96)\<rparr>"

text \<open>A document with a header of one field \<open>name\<close>, and a repository \<open>/repo\<close> with
  the given children.\<close>

definition named_doc :: "ustring \<Rightarrow> node" where
  "named_doc n =
     File [lit ''---\<newline>'', lit ''name: '' @ n @ lit ''\<newline>'', lit ''---\<newline>'', lit ''body\<newline>''] None"

definition repo_with :: "(ustring \<times> node) list \<Rightarrow> filesystem" where
  "repo_with kids =
     \<lparr>tree = Dir True True [(lit ''repo'', Dir True True kids)], repo_root = [lit ''repo'']\<rparr>"

text \<open>Three skills named Zeta, alpha and Beta, and a file beside them.\<close>

definition fs_names :: filesystem where
  "fs_names = repo_with
     [(lit ''z-skill'', Dir True True [(lit ''SKILL.md'', named_doc (lit ''Zeta''))]),
      (lit ''a-skill'', Dir True True [(lit ''SKILL.md'', named_doc (lit ''alpha''))]),
      (lit ''README.md'', File [lit ''hello\<newline>''] None),
      (lit ''b-skill'', Dir True True [(lit ''SKILL.md'', named_doc (lit ''Beta''))])]"

text \<open>A document with the three header fields that the search reads.\<close>

definition full_doc :: "ustring \<Rightarrow> ustring \<Rightarrow> ustring \<Rightarrow> node" where
  "full_doc n d a =
     File [lit ''---\<newline>'', lit ''name: '' @ n @ lit ''\<newline>'',
           lit ''description: '' @ d @ lit ''\<newline>'',
           lit ''activation: '' @ a @ lit ''\<newline>'', lit ''---\<newline>'', lit ''body\<newline>''] None"

text \<open>Two skills; only the activation text of the first mentions leaks.\<close>

definition fs_search :: filesystem where
  "fs_search = repo_with
     [(lit ''b-skill'',
         Dir True True [(lit ''SKILL.md'', full_doc (lit ''Beta'') (lit ''second'') (lit ''never''))]),
      (lit ''a-skill'',
         Dir True True
           [(lit ''SKILL.md'',
             full_doc (lit ''Alpha'') (lit ''first'') (lit ''when memory LEAKS''))])]"

text \<open>Two skills whose names both contain \<open>great\<close>, listed by the directory in the other
  order than their names sort.\<close>

definition fs_fuzzy :: filesystem where
  "fs_fuzzy = repo_with
     [(lit ''g-skill'', Dir True True [(lit ''SKILL.md'', named_doc (lit ''Great Tool''))]),
      (lit ''h-skill'',
         Dir True True [(lit ''SKILL.md'', named_doc (lit ''Another great one''))])]"

text \<open>The Greek word for street in capitals, U+039F U+0394 U+039F U+03A3, and the
  capital and the small sigma alone.\<close>

definition odos :: ustring where
  "odos = [927, 916, 927, 931]"

definition capital_sigma :: ustring where
  "capital_sigma = [931]"

definition small_sigma :: ustring where
  "small_sigma = [963]"

text \<open>Two skills, the first named by the word in capitals, the second by the small
  sigma.\<close>

definition fs_greek :: filesystem where
  "fs_greek = repo_with
     [(lit ''a-skill'', Dir True True [(lit ''SKILL.md'', named_doc odos)]),
      (lit ''b-skill'', Dir True True [(lit ''SKILL.md'', named_doc small_sigma)])]"

text \<open>A skill whose document cannot be opened, between two that can.\<close>

definition fs_unreadable :: filesystem where
  "fs_unreadable = repo_with
     [(lit ''a-skill'', Dir True True [(lit ''SKILL.md'', named_doc (lit ''A''))]),
      (lit ''b-skill'', Dir True True [(lit ''SKILL.md'', File [] (Some PermissionError))]),
      (lit ''c-skill'', Dir True True [(lit ''SKILL.md'', named_doc (lit ''C''))])]"

text \<open>A skill whose document has undecodable bytes far below its closed header, and a
  skill directory without any permission.\<close>

definition fs_late_bytes :: filesystem where
  "fs_late_bytes = repo_with
     [(lit ''a-skill'',
         Dir True True
           [(lit ''SKILL.md'',
             File [lit ''---\<newline>'', lit ''name: A\<newline>'', lit ''---\<newline>'', lit ''body\<newline>'']
                  (Some UnicodeDecodeError))])]"

definition fs_locked :: filesystem where
  "fs_locked = repo_with
     [(lit ''a-skill'', Dir False False [(lit ''SKILL.md'', named_doc (lit ''A''))])]"

text \<open>A directory \<open>foo\<close> and a directory \<open>foo-skill\<close>, each with a document.\<close>

definition fs_plain :: filesystem where
  "fs_plain = repo_with
     [(lit ''foo'', Dir True True [(lit ''SKILL.md'', named_doc (lit ''Plain''))]),
      (lit ''foo-skill'', Dir True True [(lit ''SKILL.md'', named_doc (lit ''Suffixed''))])]"

text \<open>A document that opens with a title, with a header below it; a document whose
  only delimiter line is indented; a document that gives the name twice.\<close>

definition fs_docs :: filesystem where
  "fs_docs = repo_with
     [(lit ''late-skill'',
         Dir True True
           [(lit ''SKILL.md'',
             File [lit ''# Title\<newline>'', lit ''---\<newline>'', lit ''name: x\<newline>'', lit ''---\<newline>''] None)]),
      (lit ''wide-skill'',
         Dir True True
           [(lit ''SKILL.md'',
             File [lit ''  ---  \<newline>'', lit ''name: x\<newline>'', lit ''\<newline>''] None)]),
      (lit ''twice-skill'',
         Dir True True
           [(lit ''SKILL.md'',
             File [lit ''---\<newline>'', lit ''name: first\<newline>'', lit ''version : 2\<newline>'',
                   lit ''name:second\<newline>'', lit ''---\<newline>'', lit ''name: body\<newline>''] None)])]"

section \<open>Facts about the string operations\<close>

lemma str_in_sublist: "str_in n h = sublist n h"
  by (induction h) (simp_all add: sublist_Cons_right)

lemma str_in_iff: "str_in n h \<longleftrightarrow> (\<exists>pre post. h = pre @ n @ post)"
  by (simp add: str_in_sublist sublist_def)

lemma str_in_Nil: "str_in [] h"
  by (simp add: str_in_sublist)

lemma endswith_iff: "endswith s suf \<longleftrightarrow> (\<exists>p. s = p @ suf)"
proof
  assume "endswith s suf"
  then have "s = take (length s - length suf) s @ suf"
    by (metis append_take_drop_id endswith_def)
  then show "\<exists>p. s = p @ suf" ..
next
  assume "\<exists>p. s = p @ suf"
  then show "endswith s suf" by (auto simp: endswith_def)
qed

lemma dropWhile_mid: "\<not> P x \<Longrightarrow> dropWhile P (xs @ x # ys) = dropWhile P xs @ x # ys"
  by (induction xs) auto

lemma strip_mid:
  "\<not> isspace x \<Longrightarrow> strip (a @ x # b) = dropWhile isspace a @ x # rev (dropWhile isspace (rev b))"
  by (simp add: strip_def dropWhile_mid)

lemma dropWhile_all: "\<forall>x\<in>set xs. P x \<Longrightarrow> dropWhile P xs = []"
  by (induction xs) auto

lemma strip_all_space: "\<forall>c\<in>set s. isspace c \<Longrightarrow> strip s = []"
  by (auto simp: strip_def dest: set_dropWhileD)

lemma strip_split:
  assumes "\<exists>c\<in>set s. \<not> isspace c"
  obtains a x b where "s = a @ x # b" "\<forall>c\<in>set a. isspace c" "\<not> isspace x"
proof -
  from assms have ne: "dropWhile isspace s \<noteq> []" by (induction s) auto
  then obtain x b where d: "dropWhile isspace s = x # b" by (cases "dropWhile isspace s") auto
  then have "\<not> isspace x" using hd_dropWhile[OF ne] by simp
  moreover have "s = takeWhile isspace s @ x # b" using d by (metis takeWhile_dropWhile_id)
  moreover have "\<forall>c\<in>set (takeWhile isspace s). isspace c" by (auto dest: set_takeWhileD)
  ultimately show ?thesis using that by blast
qed

lemma strip_lstrip: "strip (dropWhile isspace s) = strip s"
proof (cases "\<forall>c\<in>set s. isspace c")
  case True
  then have a: "dropWhile isspace s = []" by (rule dropWhile_all)
  have b: "strip s = []" using True by (rule strip_all_space)
  have c: "strip [] = []" by (simp add: strip_def)
  show ?thesis by (simp only: a b c)
next
  case False
  then have "\<exists>c\<in>set s. \<not> isspace c" by simp
  then obtain a x b where s: "s = a @ x # b" "\<forall>c\<in>set a. isspace c" "\<not> isspace x"
    by (rule strip_split)
  have "dropWhile isspace s = x # b" using s by simp
  then have "strip (dropWhile isspace s) = x # rev (dropWhile isspace (rev b))"
    using strip_mid[of x "[]" b] s(3) by simp
  moreover have "strip s = x # rev (dropWhile isspace (rev b))"
    using strip_mid[of x a b] s by (simp add: dropWhile_all)
  ultimately show ?thesis by simp
qed

lemma strip_rstrip: "strip (rev (dropWhile isspace (rev s))) = strip s"
  by (simp add: strip_def)

lemma colon_not_space: "\<not> isspace (cp CHR '':'')"
  by (simp add: isspace_def)

lemma kv_line:
  assumes "cp CHR '':'' \<notin> set k"
  shows "cp CHR '':'' \<in> set (strip (k @ lit '':'' @ v))"
    and "strip (k @ lit '':'' @ v) \<noteq> lit ''---''"
    and "strip (fst (split_colon (strip (k @ lit '':'' @ v)))) = strip k"
    and "strip (snd (split_colon (strip (k @ lit '':'' @ v)))) = strip v"
proof -
  let ?l = "dropWhile isspace k" and ?r = "rev (dropWhile isspace (rev v))"
  have s: "strip (k @ cp CHR '':'' # v) = ?l @ cp CHR '':'' # ?r"
    using strip_mid[OF colon_not_space, of k v] by simp
  have nl: "\<forall>c\<in>set ?l. c \<noteq> cp CHR '':''" using assms by (auto dest: set_dropWhileD)
  show "cp CHR '':'' \<in> set (strip (k @ lit '':'' @ v))" using s by simp
  then show "strip (k @ lit '':'' @ v) \<noteq> lit ''---''" by auto
  show "strip (fst (split_colon (strip (k @ lit '':'' @ v)))) = strip k"
    using nl s by (simp add: split_colon_def takeWhile_tail strip_lstrip)
  have "dropWhile (\<lambda>c. c \<noteq> cp CHR '':'') (?l @ cp CHR '':'' # ?r) = cp CHR '':'' # ?r"
    using nl by simp
  then show "strip (snd (split_colon (strip (k @ lit '':'' @ v)))) = strip v"
    using s by (simp add: split_colon_def strip_rstrip)
qed

section \<open>Facts about the parser\<close>

lemma parse_loop_skip:
  "\<forall>l\<in>set pre. strip l \<noteq> lit ''---'' \<Longrightarrow>
   parse_loop False md (pre @ rest) = parse_loop False md rest"
  by (induction pre) (simp_all add: Let_def)

lemma parse_loop_header:
  assumes "\<forall>(k, v)\<in>set kvs. cp CHR '':'' \<notin> set k" and "strip d = lit ''---''"
  shows "parse_loop True md (map (\<lambda>(k, v). k @ lit '':'' @ v) kvs @ d # body)
           = md ++ map_of (rev (map (\<lambda>(k, v). (strip k, strip v)) kvs))"
  using assms(1)
proof (induction kvs arbitrary: md)
  case Nil
  show ?case using assms(2) by (simp add: Let_def)
next
  case (Cons kv kvs)
  obtain k v where kv: "kv = (k, v)" by (cases kv)
  from Cons.prems kv have nk: "cp CHR '':'' \<notin> set k" by simp
  from Cons.prems have rest: "\<forall>(k, v)\<in>set kvs. cp CHR '':'' \<notin> set k" by simp
  let ?tl = "map (\<lambda>(k, v). k @ lit '':'' @ v) kvs @ d # body"
  have step: "parse_loop True md ((k @ lit '':'' @ v) # ?tl)
        = parse_loop True (md(strip k \<mapsto> strip v)) ?tl"
    using kv_line[OF nk, of v] by (simp add: Let_def case_prod_beta)
  have "parse_loop True (md(strip k \<mapsto> strip v)) ?tl
        = md(strip k \<mapsto> strip v) ++ map_of (rev (map (\<lambda>(k, v). (strip k, strip v)) kvs))"
    by (rule Cons.IH[OF rest])
  also have "\<dots> = md ++ map_of (rev (map (\<lambda>(k, v). (strip k, strip v)) (kv # kvs)))"
    by (simp add: kv map_add_assoc[symmetric])
  finally show ?case using step by (simp add: kv)
qed

lemma loop_breaks_True:
  "loop_breaks True ls \<longleftrightarrow> 1 \<le> length (filter (\<lambda>l. strip l = lit ''---'') ls)"
  by (induction ls) (simp_all add: Let_def)

lemma loop_breaks_False:
  "loop_breaks False ls \<longleftrightarrow> 2 \<le> length (filter (\<lambda>l. strip l = lit ''---'') ls)"
  by (induction ls) (auto simp: Let_def loop_breaks_True)

lemma parse_frontmatter_whole:
  "open_lines fs p = Inr ls \<Longrightarrow> parse_frontmatter fs p = Inr (parse_loop False Map.empty ls)"
  by (auto simp: open_lines_def parse_frontmatter_def
           split: sum.splits node.splits option.splits)

lemma parse_frontmatter_File:
  "stat fs p = Inr (File ls failure) \<Longrightarrow>
   (parse_frontmatter fs p = Inl e \<longleftrightarrow>
      failure = Some e \<and> \<not> 2 \<le> length (filter (\<lambda>l. strip l = lit ''---'') ls))"
  by (auto simp: parse_frontmatter_def loop_breaks_False split: option.splits)

section \<open>Facts about lower-casing\<close>

lemma lower_loop_ascii:
  "ascii_table u \<Longrightarrow> \<forall>c\<in>set s. c < 128 \<Longrightarrow>
   lower_loop u preceding s = map (\<lambda>c. if 65 \<le> c \<and> c \<le> 90 then c + 32 else c) s"
  by (induction s arbitrary: preceding) (auto simp: ascii_table_def)

lemma lower_ascii:
  "ascii_table u \<Longrightarrow> is_ascii s \<Longrightarrow>
   lower u s = map (\<lambda>c. if 65 \<le> c \<and> c \<le> 90 then c + 32 else c) s"
  by (simp add: lower_def is_ascii_def lower_loop_ascii)

lemma lower_Nil: "lower u [] = []"
  by (simp add: lower_def)

lemma same_letter_iff:
  "c < 128 \<Longrightarrow> d < 128 \<Longrightarrow>
   (if 65 \<le> c \<and> c \<le> 90 then c + 32 else c) = (if 65 \<le> d \<and> d \<le> 90 then d + 32 else d)
     \<longleftrightarrow> same_letter c d"
  by (auto simp: same_letter_def)

lemma map_eq_same_letter:
  assumes "\<forall>c\<in>set w. c < 128" and "\<forall>c\<in>set k. c < 128"
  shows "map (\<lambda>c. if 65 \<le> c \<and> c \<le> 90 then c + 32 else c) w
           = map (\<lambda>c. if 65 \<le> c \<and> c \<le> 90 then c + 32 else c) k
         \<longleftrightarrow> list_all2 same_letter w k"
proof -
  define f :: "nat \<Rightarrow> nat" where "f = (\<lambda>c. if 65 \<le> c \<and> c \<le> 90 then c + 32 else c)"
  have h: "f c = f d \<longleftrightarrow> same_letter c d" if "c < 128" "d < 128" for c d
    using same_letter_iff[OF that] by (simp add: f_def)
  have "map f w = map f k \<longleftrightarrow> list_all2 same_letter w k"
    using assms
  proof (induction w arbitrary: k)
    case Nil
    then show ?case by simp
  next
    case (Cons c w)
    show ?case
    proof (cases k)
      case Nil
      then show ?thesis by simp
    next
      case k: (Cons d k')
      with Cons.prems have b: "c < 128" "d < 128" and r: "\<forall>c\<in>set w. c < 128" "\<forall>c\<in>set k'. c < 128"
        by simp_all
      have "map f w = map f k' \<longleftrightarrow> list_all2 same_letter w k'"
        using r by (rule Cons.IH)
      then show ?thesis
        by (simp only: k list.map list.inject list_all2_Cons h[OF b])
    qed
  qed
  then show ?thesis by (simp only: f_def)
qed

lemma map_contains_iff:
  "(\<exists>pre post. map f t = pre @ map f k @ post)
     \<longleftrightarrow> (\<exists>pre w post. t = pre @ w @ post \<and> map f w = map f k)"
proof
  assume "\<exists>pre post. map f t = pre @ map f k @ post"
  then obtain pre post where e: "map f t = pre @ map f k @ post" by blast
  let ?w = "take (length k) (drop (length pre) t)"
  have "map f ?w = take (length k) (drop (length pre) (map f t))"
    by (simp only: take_map drop_map)
  also have "\<dots> = map f k" by (simp add: e)
  finally have "map f ?w = map f k" .
  moreover have "t = take (length pre) t @ ?w @ drop (length k) (drop (length pre) t)"
    by (simp only: append_take_drop_id)
  ultimately show "\<exists>pre w post. t = pre @ w @ post \<and> map f w = map f k" by blast
next
  assume "\<exists>pre w post. t = pre @ w @ post \<and> map f w = map f k"
  then obtain pre w post where "t = pre @ w @ post" "map f w = map f k" by blast
  then have "map f t = map f pre @ map f k @ map f post" by simp
  then show "\<exists>pre post. map f t = pre @ map f k @ post" by blast
qed

lemma lower_contains_ascii:
  assumes "ascii_table u" and "is_ascii keyword" and "is_ascii txt"
  shows "lower_contains u keyword txt \<longleftrightarrow> ci_substring keyword txt"
proof -
  let ?f = "\<lambda>c::nat. if 65 \<le> c \<and> c \<le> 90 then c + 32 else c"
  have k: "\<forall>c\<in>set keyword. c < 128" and t: "\<forall>c\<in>set txt. c < 128"
    using assms by (simp_all add: is_ascii_def)
  have "lower_contains u keyword txt \<longleftrightarrow> (\<exists>pre post. map ?f txt = pre @ map ?f keyword @ post)"
    using assms by (simp add: lower_contains_def lower_ascii)
  also have "\<dots> \<longleftrightarrow> (\<exists>pre w post. txt = pre @ w @ post \<and> map ?f w = map ?f keyword)"
    by (rule map_contains_iff)
  also have "\<dots> \<longleftrightarrow> ci_substring keyword txt"
  proof -
    have "map ?f w = map ?f keyword \<longleftrightarrow> list_all2 same_letter w keyword"
      if "txt = pre @ w @ post" for pre w post
    proof -
      from that t have "\<forall>c\<in>set w. c < 128" by simp
      then show ?thesis using k by (rule map_eq_same_letter)
    qed
    then show ?thesis unfolding ci_substring_def by blast
  qed
  finally show ?thesis .
qed

lemma lower_contains_code [code]:
  "lower_contains u k t = str_in (lower u k) (lower u t)"
  by (simp add: lower_contains_def str_in_iff)

lemma ascii_table_example: "ascii_table example_ucd"
  by (auto simp: ascii_table_def example_ucd_def)

section \<open>Facts about paths and the probes\<close>

lemma split_sep_no_sep: "sep \<notin> set s \<Longrightarrow> split_sep sep s = [s]"
  by (induction s) auto

lemma parts_single:
  "cp CHR ''/'' \<notin> set s \<Longrightarrow> s \<noteq> [] \<Longrightarrow> s \<noteq> lit ''.'' \<Longrightarrow> parts s = [s]"
  by (simp add: parts_def split_sep_no_sep)

lemma joinpath_single:
  "cp CHR ''/'' \<notin> set s \<Longrightarrow> s \<noteq> [] \<Longrightarrow> s \<noteq> lit ''.'' \<Longrightarrow> joinpath root s = root @ [s]"
  by (cases s) (auto simp: joinpath_def parts_single)

lemma joinpath_empty: "joinpath root [] = root"
  by (simp add: joinpath_def parts_def)

lemma joinpath_suffixed:
  "cp CHR ''/'' \<notin> set foo \<Longrightarrow> joinpath root (foo @ lit ''-skill'') = root @ [foo @ lit ''-skill'']"
  by (rule joinpath_single) auto

lemma walk_prefix_Inr: "walk st (p @ q) = Inr n \<Longrightarrow> \<exists>m. walk st p = Inr m"
proof (induction st p rule: walk.induct)
  case (1 cs)
  then show ?case by simp
next
  case (2 cur anc)
  then show ?case by simp
next
  case (3 cur anc c cs)
  then show ?case
    by (auto split: node.splits if_splits option.splits)
qed

lemma walk_prefix_raise:
  "walk st p = Inl PermissionError \<Longrightarrow> walk st (p @ q) = Inl PermissionError"
proof (induction st p rule: walk.induct)
  case (1 cs)
  then show ?case by simp
next
  case (2 cur anc)
  then show ?case by simp
next
  case (3 cur anc c cs)
  then show ?case
    by (auto split: node.splits if_splits option.splits)
qed

lemma walk_errors:
  "walk st p = Inl e \<Longrightarrow> e = PermissionError \<or> ignore_error e"
proof (induction st p rule: walk.induct)
  case (1 cs)
  then show ?case by (simp add: ignore_error_def)
next
  case (2 cur anc)
  then show ?case by simp
next
  case (3 cur anc c cs)
  then show ?case
    by (auto simp: ignore_error_def split: node.splits if_splits option.splits)
qed

lemma exists_True_iff: "exists fs p = Inr True \<longleftrightarrow> (\<exists>n. stat fs p = Inr n)"
  by (auto simp: exists_def split: sum.splits)

lemma exists_Inl_iff: "exists fs p = Inl e \<longleftrightarrow> stat fs p = Inl e \<and> e = PermissionError"
  using walk_errors[of "[tree fs]" p]
  by (auto simp: exists_def stat_def ignore_error_def split: sum.splits)

lemma exists_prefix: "exists fs (p @ q) = Inr True \<Longrightarrow> exists fs p = Inr True"
  unfolding exists_True_iff stat_def by (auto dest: walk_prefix_Inr)

lemma exists_prefix_answers: "exists fs (p @ q) = Inr b \<Longrightarrow> \<exists>b'. exists fs p = Inr b'"
proof (cases "exists fs p")
  case (Inl e)
  then have "stat fs p = Inl PermissionError" by (simp add: exists_Inl_iff)
  then have "stat fs (p @ q) = Inl PermissionError"
    unfolding stat_def by (rule walk_prefix_raise)
  then have "exists fs (p @ q) = Inl PermissionError" by (simp add: exists_Inl_iff)
  moreover assume "exists fs (p @ q) = Inr b"
  ultimately show ?thesis by simp
next
  case (Inr b')
  then show ?thesis by simp
qed

lemma holds_document_True:
  "exists fs (d @ [lit ''SKILL.md'']) = Inr True \<Longrightarrow> holds_document fs d = Inr True"
  using exists_prefix[of fs d "[lit ''SKILL.md'']"] by (simp add: holds_document_def)

lemma holds_document_False:
  assumes "exists fs (d @ [lit ''SKILL.md'']) = Inr False"
  shows "holds_document fs d = Inr False"
proof -
  from exists_prefix_answers[OF assms] obtain b where "exists fs d = Inr b" by blast
  then show ?thesis using assms by (simp add: holds_document_def)
qed

section \<open>Facts about the scanner\<close>

lemma item_raises_unique: "item_raises fs root x e \<Longrightarrow> item_raises fs root x e' \<Longrightarrow> e = e'"
  by (auto simp: item_raises_def)

lemma scan_items_raise:
  "item_raises fs root x e \<Longrightarrow> scan_items fs root (x # xs) acc = Inl e"
  by (auto simp: item_raises_def Let_def)

lemma scan_items_pass:
  "\<forall>e. \<not> item_raises fs root x e \<Longrightarrow>
   \<exists>acc'. scan_items fs root (x # xs) acc = scan_items fs root xs acc'"
  by (auto simp: item_raises_def Let_def split: sum.splits)

lemma scan_items_Inl_iff:
  "scan_items fs root items acc = Inl e \<longleftrightarrow>
   (\<exists>pre item post. items = pre @ item # post
      \<and> (\<forall>x\<in>set pre. \<forall>e'. \<not> item_raises fs root x e') \<and> item_raises fs root item e)"
proof (induction items arbitrary: acc)
  case Nil
  show ?case by simp
next
  case (Cons x xs)
  show ?case
  proof (cases "\<exists>e0. item_raises fs root x e0")
    case True
    then obtain e0 where r: "item_raises fs root x e0" by blast
    have l: "scan_items fs root (x # xs) acc = Inl e0" using r by (rule scan_items_raise)
    have "(\<exists>pre item post. x # xs = pre @ item # post
            \<and> (\<forall>y\<in>set pre. \<forall>e'. \<not> item_raises fs root y e') \<and> item_raises fs root item e)
          \<longleftrightarrow> e = e0"
    proof
      assume "\<exists>pre item post. x # xs = pre @ item # post
            \<and> (\<forall>y\<in>set pre. \<forall>e'. \<not> item_raises fs root y e') \<and> item_raises fs root item e"
      then obtain pre item post where s: "x # xs = pre @ item # post"
        and n: "\<forall>y\<in>set pre. \<forall>e'. \<not> item_raises fs root y e'"
        and i: "item_raises fs root item e" by blast
      have "pre = []"
      proof (cases pre)
        case Nil
        then show ?thesis .
      next
        case (Cons y ys)
        with s have "y = x" by simp
        with n Cons r show ?thesis by auto
      qed
      with s have "item = x" by simp
      with i r show "e = e0" by (auto dest: item_raises_unique)
    next
      assume "e = e0"
      then have "x # xs = [] @ x # xs \<and> (\<forall>y\<in>set []. \<forall>e'. \<not> item_raises fs root y e')
                 \<and> item_raises fs root x e"
        using r by simp
      then show "\<exists>pre item post. x # xs = pre @ item # post
            \<and> (\<forall>y\<in>set pre. \<forall>e'. \<not> item_raises fs root y e') \<and> item_raises fs root item e"
        by blast
    qed
    then show ?thesis using l by auto
  next
    case False
    then have nr: "\<forall>e. \<not> item_raises fs root x e" by simp
    from scan_items_pass[OF nr] obtain acc' where
      st: "scan_items fs root (x # xs) acc = scan_items fs root xs acc'" by blast
    have "(\<exists>pre item post. x # xs = pre @ item # post
            \<and> (\<forall>y\<in>set pre. \<forall>e'. \<not> item_raises fs root y e') \<and> item_raises fs root item e)
          \<longleftrightarrow> (\<exists>pre item post. xs = pre @ item # post
            \<and> (\<forall>y\<in>set pre. \<forall>e'. \<not> item_raises fs root y e') \<and> item_raises fs root item e)"
    proof
      assume "\<exists>pre item post. x # xs = pre @ item # post
            \<and> (\<forall>y\<in>set pre. \<forall>e'. \<not> item_raises fs root y e') \<and> item_raises fs root item e"
      then obtain pre item post where s: "x # xs = pre @ item # post"
        and n: "\<forall>y\<in>set pre. \<forall>e'. \<not> item_raises fs root y e'"
        and i: "item_raises fs root item e" by blast
      show "\<exists>pre item post. xs = pre @ item # post
            \<and> (\<forall>y\<in>set pre. \<forall>e'. \<not> item_raises fs root y e') \<and> item_raises fs root item e"
      proof (cases pre)
        case Nil
        with s have "item = x" by simp
        with i nr show ?thesis by simp
      next
        case (Cons y ys)
        with s have "xs = ys @ item # post" by simp
        moreover from n Cons have "\<forall>y\<in>set ys. \<forall>e'. \<not> item_raises fs root y e'" by simp
        ultimately show ?thesis using i by blast
      qed
    next
      assume "\<exists>pre item post. xs = pre @ item # post
            \<and> (\<forall>y\<in>set pre. \<forall>e'. \<not> item_raises fs root y e') \<and> item_raises fs root item e"
      then obtain pre item post where s: "xs = pre @ item # post"
        and n: "\<forall>y\<in>set pre. \<forall>e'. \<not> item_raises fs root y e'"
        and i: "item_raises fs root item e" by blast
      have "x # xs = (x # pre) @ item # post" using s by simp
      moreover have "\<forall>y\<in>set (x # pre). \<forall>e'. \<not> item_raises fs root y e'" using n nr by simp
      ultimately show "\<exists>pre item post. x # xs = pre @ item # post
            \<and> (\<forall>y\<in>set pre. \<forall>e'. \<not> item_raises fs root y e') \<and> item_raises fs root item e"
        using i by blast
    qed
    then show ?thesis using st Cons.IH[of acc'] by simp
  qed
qed

lemma scan_items_Inr_iff:
  "(\<exists>skills. scan_items fs root items acc = Inr skills) \<longleftrightarrow>
   (\<forall>item\<in>set items. \<forall>e. \<not> item_raises fs root item e)"
proof -
  have "(\<exists>skills. scan_items fs root items acc = Inr skills)
        \<longleftrightarrow> \<not> (\<exists>e. scan_items fs root items acc = Inl e)"
    by (cases "scan_items fs root items acc") auto
  also have "\<dots> \<longleftrightarrow> \<not> (\<exists>item\<in>set items. \<exists>e. item_raises fs root item e)"
  proof -
    have "(\<exists>e. scan_items fs root items acc = Inl e)
          \<longleftrightarrow> (\<exists>item\<in>set items. \<exists>e. item_raises fs root item e)"
    proof
      assume "\<exists>e. scan_items fs root items acc = Inl e"
      then show "\<exists>item\<in>set items. \<exists>e. item_raises fs root item e"
        unfolding scan_items_Inl_iff by auto
    next
      assume "\<exists>item\<in>set items. \<exists>e. item_raises fs root item e"
      then obtain pre item post where "items = pre @ item # post"
        and "\<exists>e. item_raises fs root item e"
        and "\<forall>y\<in>set pre. \<not> (\<exists>e. item_raises fs root y e)"
        using split_list_first_prop[of items "\<lambda>item. \<exists>e. item_raises fs root item e"] by blast
      then show "\<exists>e. scan_items fs root items acc = Inl e"
        unfolding scan_items_Inl_iff by blast
    qed
    then show ?thesis by simp
  qed
  finally show ?thesis by blast
qed

lemma scan_items_Inr_props:
  "scan_items fs root items acc = Inr skills \<Longrightarrow>
   \<exists>new. skills = acc @ new \<and> map directory new = filter (candidate fs root) items
        \<and> (\<forall>s\<in>set new. path s = root @ [directory s, lit ''SKILL.md''])"
proof (induction items arbitrary: acc)
  case Nil
  then show ?case by simp
next
  case (Cons item items)
  show ?case
  proof (cases "candidate fs root item")
    case False
    then have "scan_items fs root items acc = Inr skills"
      using Cons.prems
      by (auto simp: candidate_def Let_def split: sum.splits if_splits)
    from Cons.IH[OF this] False show ?thesis by auto
  next
    case True
    then obtain m where m: "parse_frontmatter fs (root @ [item, lit ''SKILL.md'']) = Inr m"
      using Cons.prems
      by (cases "parse_frontmatter fs (root @ [item, lit ''SKILL.md''])")
         (auto simp: candidate_def Let_def)
    let ?s = "\<lparr>directory = item, path = root @ [item, lit ''SKILL.md''],
                name = get_default m (lit ''name'') item,
                description = get_default m (lit ''description'') (lit ''No description''),
                version = get_default m (lit ''version'') (lit ''1.0''),
                activation = get_default m (lit ''activation'') (lit '''')\<rparr>"
    have "scan_items fs root items (acc @ [?s]) = Inr skills"
      using Cons.prems True m by (simp add: candidate_def Let_def)
    from Cons.IH[OF this] obtain new where
      new: "skills = (acc @ [?s]) @ new" "map directory new = filter (candidate fs root) items"
           "\<forall>s\<in>set new. path s = root @ [directory s, lit ''SKILL.md'']" by blast
    show ?thesis
      by (rule exI[of _ "?s # new"]) (use new True in simp)
  qed
qed

lemma get_all_skills_sorted_aux: "get_all_skills fs = Inr skills \<Longrightarrow> sorted (map name skills)"
  by (auto simp: get_all_skills_def Let_def split: sum.splits)

lemma get_all_skills_props:
  assumes "get_all_skills fs = Inr skills"
  shows "\<exists>items. iterdir fs (get_repo_root fs) = Inr items
           \<and> mset (map directory skills) = mset (filter (candidate fs (get_repo_root fs)) items)
           \<and> (\<forall>s\<in>set skills. path s = get_repo_root fs @ [directory s, lit ''SKILL.md''])"
proof -
  from assms obtain items unsorted where
    i: "iterdir fs (get_repo_root fs) = Inr items" and
    u: "scan_items fs (get_repo_root fs) items [] = Inr unsorted" and
    s: "skills = sort_key name unsorted"
    by (auto simp: get_all_skills_def Let_def split: sum.splits)
  from scan_items_Inr_props[OF u] have
    d: "map directory unsorted = filter (candidate fs (get_repo_root fs)) items" and
    p: "\<forall>s\<in>set unsorted. path s = get_repo_root fs @ [directory s, lit ''SKILL.md'']"
    by auto
  have "mset (map directory skills) = mset (map directory unsorted)"
    by (simp add: s)
  then show ?thesis using i d p s by simp
qed


lemma get_all_skills_Inl_iff:
  "iterdir fs (get_repo_root fs) = Inr items \<Longrightarrow>
   get_all_skills fs = Inl e \<longleftrightarrow> scan_items fs (get_repo_root fs) items [] = Inl e"
  by (auto simp: get_all_skills_def Let_def split: sum.splits)

lemma get_all_skills_Inr_iff:
  "iterdir fs (get_repo_root fs) = Inr items \<Longrightarrow>
   (\<exists>skills. get_all_skills fs = Inr skills)
     \<longleftrightarrow> (\<exists>skills. scan_items fs (get_repo_root fs) items [] = Inr skills)"
  by (auto simp: get_all_skills_def Let_def split: sum.splits)

lemma get_all_skills_root_exists:
  "get_all_skills fs = Inr skills \<Longrightarrow> exists fs (get_repo_root fs) = Inr True"
  by (auto simp: get_all_skills_def Let_def iterdir_def exists_True_iff split: sum.splits)

section \<open>Facts about the resolver\<close>

lemma fuzzy_loop_find:
  "fuzzy_loop u n skills = map_option path (find (\<lambda>s. lower_contains u n (name s)) skills)"
  by (induction skills) (simp_all add: lower_contains_code)

lemmas fs_eval =
  repo_with_def named_doc_def full_doc_def get_repo_root_def stat_def exists_def is_dir_def
  ignore_error_def iterdir_def open_lines_def parse_frontmatter_def get_all_skills_def
  endswith_def strip_def isspace_def split_colon_def get_default_def holds_document_def
  Let_def

lemmas lower_eval = lower_def handle_capital_sigma_def example_ucd_def

section \<open>The claims\<close>

text \<open>
  C5. Whenever the scan returns, its entries are in ascending order of their names under
  the code-point order of strings, in which capital letters come before small ones.
\<close>

theorem get_all_skills_sorted:
  "get_all_skills fs = Inr skills \<Longrightarrow> sorted (map name skills)"
  by (rule get_all_skills_sorted_aux)

theorem get_all_skills_sorted_witness:
  "map name (projr (get_all_skills fs_names)) = [lit ''Beta'', lit ''Zeta'', lit ''alpha'']
   \<and> sorted (map name (projr (get_all_skills fs_names)))"
proof -
  have h: "get_all_skills fs_names =
           Inr [\<lparr>directory = lit ''b-skill'',
                  path = [lit ''repo'', lit ''b-skill'', lit ''SKILL.md''],
                  name = lit ''Beta'', description = lit ''No description'',
                  version = lit ''1.0'', activation = lit ''''\<rparr>,
                \<lparr>directory = lit ''z-skill'',
                  path = [lit ''repo'', lit ''z-skill'', lit ''SKILL.md''],
                  name = lit ''Zeta'', description = lit ''No description'',
                  version = lit ''1.0'', activation = lit ''''\<rparr>,
                \<lparr>directory = lit ''a-skill'',
                  path = [lit ''repo'', lit ''a-skill'', lit ''SKILL.md''],
                  name = lit ''alpha'', description = lit ''No description'',
                  version = lit ''1.0'', activation = lit ''''\<rparr>]"
    by (simp add: fs_names_def fs_eval)
  from get_all_skills_sorted[OF h] show ?thesis by (simp add: h)
qed

text \<open>
  C2, as the code has it. Lines before the first delimiter line are passed over, so the
  parse of a document equals the parse of what follows these lines; a document with no
  delimiter line at all parses to the empty mapping.
\<close>

theorem parse_frontmatter_skips_to_delimiter:
  "open_lines fs p = Inr (pre @ rest) \<Longrightarrow> \<forall>l\<in>set pre. strip l \<noteq> lit ''---'' \<Longrightarrow>
   parse_frontmatter fs p = Inr (parse_loop False Map.empty rest)
   \<and> (rest = [] \<longrightarrow> parse_frontmatter fs p = Inr Map.empty)"
proof -
  assume o: "open_lines fs p = Inr (pre @ rest)"
    and n: "\<forall>l\<in>set pre. strip l \<noteq> lit ''---''"
  have a: "parse_loop False Map.empty (pre @ rest) = parse_loop False Map.empty rest"
    using n by (rule parse_loop_skip)
  have "parse_frontmatter fs p = Inr (parse_loop False Map.empty rest)"
    using parse_frontmatter_whole[OF o] a by simp
  then show ?thesis by simp
qed

theorem parse_frontmatter_skips_to_delimiter_witness:
  "parse_frontmatter fs_docs [lit ''repo'', lit ''late-skill'', lit ''SKILL.md'']
     = Inr (parse_loop False Map.empty [lit ''---\<newline>'', lit ''name: x\<newline>'', lit ''---\<newline>''])"
proof -
  have o: "open_lines fs_docs [lit ''repo'', lit ''late-skill'', lit ''SKILL.md'']
           = Inr ([lit ''# Title\<newline>''] @ [lit ''---\<newline>'', lit ''name: x\<newline>'', lit ''---\<newline>''])"
    by (simp add: fs_docs_def fs_eval)
  have n: "\<forall>l\<in>set [lit ''# Title\<newline>'']. strip l \<noteq> lit ''---''"
    by (simp add: fs_eval)
  from parse_frontmatter_skips_to_delimiter[OF o n] show ?thesis by simp
qed

text \<open>The first line of this document is a title, and the header below it is parsed.\<close>

theorem first_line_not_delimiter_counterexample:
  "open_lines fs_docs [lit ''repo'', lit ''late-skill'', lit ''SKILL.md'']
     = Inr [lit ''# Title\<newline>'', lit ''---\<newline>'', lit ''name: x\<newline>'', lit ''---\<newline>'']
   \<and> parse_frontmatter fs_docs [lit ''repo'', lit ''late-skill'', lit ''SKILL.md'']
       = Inr [lit ''name'' \<mapsto> lit ''x'']
   \<and> parse_frontmatter fs_docs [lit ''repo'', lit ''late-skill'', lit ''SKILL.md'']
       \<noteq> Inr Map.empty"
  by (simp add: fs_docs_def fs_eval)

text \<open>
  C6. A header of lines \<open>key:value\<close>, whose keys hold no colon, between two delimiter
  lines parses to the mapping that gives each key, stripped, the stripped value of its
  last line: the association list of the header read from its end. The text after the
  closing delimiter plays no part.
\<close>

theorem parse_frontmatter_last_wins:
  "open_lines fs p = Inr (d1 # map (\<lambda>(k, v). k @ lit '':'' @ v) kvs @ d2 # body) \<Longrightarrow>
   strip d1 = lit ''---'' \<Longrightarrow> strip d2 = lit ''---'' \<Longrightarrow>
   \<forall>(k, v)\<in>set kvs. cp CHR '':'' \<notin> set k \<Longrightarrow>
   parse_frontmatter fs p = Inr (map_of (rev (map (\<lambda>(k, v). (strip k, strip v)) kvs)))"
proof -
  assume o: "open_lines fs p = Inr (d1 # map (\<lambda>(k, v). k @ lit '':'' @ v) kvs @ d2 # body)"
    and d1: "strip d1 = lit ''---''" and d2: "strip d2 = lit ''---''"
    and k: "\<forall>(k, v)\<in>set kvs. cp CHR '':'' \<notin> set k"
  have "parse_loop False Map.empty (d1 # map (\<lambda>(k, v). k @ lit '':'' @ v) kvs @ d2 # body)
        = parse_loop True Map.empty (map (\<lambda>(k, v). k @ lit '':'' @ v) kvs @ d2 # body)"
    using d1 by (simp add: Let_def)
  also have "\<dots> = Map.empty ++ map_of (rev (map (\<lambda>(k, v). (strip k, strip v)) kvs))"
    using k d2 by (rule parse_loop_header)
  finally show ?thesis using parse_frontmatter_whole[OF o] by simp
qed

theorem parse_frontmatter_last_wins_witness:
  "parse_frontmatter fs_docs [lit ''repo'', lit ''twice-skill'', lit ''SKILL.md'']
     = Inr (map_of [(lit ''name'', lit ''second''), (lit ''version'', lit ''2''),
                    (lit ''name'', lit ''first'')])"
proof -
  have o: "open_lines fs_docs [lit ''repo'', lit ''twice-skill'', lit ''SKILL.md'']
           = Inr (lit ''---\<newline>''
                  # map (\<lambda>(k, v). k @ lit '':'' @ v)
                      [(lit ''name'', lit '' first\<newline>''), (lit ''version '', lit '' 2\<newline>''),
                       (lit ''name'', lit ''second\<newline>'')]
                  @ lit ''---\<newline>'' # [lit ''name: body\<newline>''])"
    by (simp add: fs_docs_def fs_eval)
  have d: "strip (lit ''---\<newline>'') = lit ''---''" by (simp add: fs_eval)
  have k: "\<forall>(k, v)\<in>set [(lit ''name'', lit '' first\<newline>''), (lit ''version '', lit '' 2\<newline>''),
                          (lit ''name'', lit ''second\<newline>'')].
             cp CHR '':'' \<notin> set k"
    by simp
  from parse_frontmatter_last_wins[OF o d d k] show ?thesis by (simp add: fs_eval)
qed

text \<open>
  C7, as the code has it. A line is a delimiter exactly when it is the token \<open>---\<close> once
  the whitespace around it is stripped. Outside the header such a line, and no other,
  changes what the rest of the document parses to; inside the header such a line, and no
  other, ends the parse whatever follows.
\<close>

theorem delimiter_iff_stripped_token:
  "((\<exists>rest. parse_loop False Map.empty (l # rest) \<noteq> parse_loop False Map.empty rest)
      \<longleftrightarrow> strip l = lit ''---'')
   \<and> ((\<forall>rest. parse_loop True Map.empty (l # rest) = Map.empty) \<longleftrightarrow> strip l = lit ''---'')"
proof (cases "strip l = lit ''---''")
  case True
  have "parse_loop False Map.empty (l # [lit ''k:v'']) \<noteq> parse_loop False Map.empty [lit ''k:v'']"
    using True by (simp add: fs_eval)
  then have "\<exists>rest. parse_loop False Map.empty (l # rest) \<noteq> parse_loop False Map.empty rest"
    by blast
  moreover have "\<forall>rest. parse_loop True Map.empty (l # rest) = Map.empty"
    using True by simp
  ultimately show ?thesis using True by simp
next
  case False
  have a: "\<forall>rest. parse_loop False Map.empty (l # rest) = parse_loop False Map.empty rest"
    using False by (simp add: Let_def)
  have "\<exists>rest. parse_loop True Map.empty (l # rest) \<noteq> Map.empty"
  proof (cases "cp CHR '':'' \<in> set (strip l)")
    case True
    have "parse_loop True Map.empty (l # []) \<noteq> Map.empty"
      using False True by (simp add: Let_def case_prod_beta)
    then show ?thesis by blast
  next
    case nc: False
    have "parse_loop True Map.empty (l # [lit ''k:v'']) \<noteq> Map.empty"
      using False nc by (simp add: fs_eval)
    then show ?thesis by blast
  qed
  then show ?thesis using a False by simp
qed

theorem delimiter_iff_stripped_token_witness:
  "strip (lit ''  ---  \<newline>'') = lit ''---''
   \<and> (\<exists>rest. parse_loop False Map.empty (lit ''  ---  \<newline>'' # rest)
              \<noteq> parse_loop False Map.empty rest)
   \<and> (\<forall>rest. parse_loop True Map.empty (lit ''  ---  \<newline>'' # rest) = Map.empty)"
proof -
  have s: "strip (lit ''  ---  \<newline>'') = lit ''---''" by (simp add: fs_eval)
  from delimiter_iff_stripped_token[of "lit ''  ---  \<newline>''"] s show ?thesis by simp
qed

text \<open>The indented line opens the header of this document: the field below it is read.\<close>

theorem indented_delimiter_counterexample:
  "lit ''  ---  \<newline>'' \<noteq> lit ''---''
   \<and> open_lines fs_docs [lit ''repo'', lit ''wide-skill'', lit ''SKILL.md'']
       = Inr [lit ''  ---  \<newline>'', lit ''name: x\<newline>'', lit ''\<newline>'']
   \<and> parse_frontmatter fs_docs [lit ''repo'', lit ''wide-skill'', lit ''SKILL.md'']
       = Inr [lit ''name'' \<mapsto> lit ''x'']"
  by (simp add: fs_docs_def fs_eval)

text \<open>
  C1, as the code has it. When the children of the root can be listed, the scan ends
  with an error exactly when the pass of its loop for some child raises: one of the two
  probes of the child, or the read of its document. The error of the scan is then that of
  the first such child in the order of the listing, and nothing is returned for the other
  children. The scan returns its entries exactly when no pass raises, and the entries are
  then, up to their order, the \<open>-skill\<close> directories that hold a document. The read of a
  document raises exactly when the file fails before it has delivered two delimiter
  lines; what the delivered lines hold otherwise is never an error.
\<close>

theorem get_all_skills_raises_first_error:
  "iterdir fs (get_repo_root fs) = Inr items \<Longrightarrow>
   (\<forall>e. get_all_skills fs = Inl e \<longleftrightarrow>
      (\<exists>pre item post. items = pre @ item # post
         \<and> (\<forall>x\<in>set pre. \<forall>e'. \<not> item_raises fs (get_repo_root fs) x e')
         \<and> item_raises fs (get_repo_root fs) item e))
   \<and> ((\<exists>skills. get_all_skills fs = Inr skills) \<longleftrightarrow>
      (\<forall>item\<in>set items. \<forall>e. \<not> item_raises fs (get_repo_root fs) item e))
   \<and> (\<forall>skills. get_all_skills fs = Inr skills \<longrightarrow>
         mset (map directory skills) = mset (filter (candidate fs (get_repo_root fs)) items))
   \<and> (\<forall>p ls failure e. stat fs p = Inr (File ls failure) \<longrightarrow>
         (parse_frontmatter fs p = Inl e \<longleftrightarrow>
            failure = Some e \<and> \<not> 2 \<le> length (filter (\<lambda>l. strip l = lit ''---'') ls)))"
proof -
  assume i: "iterdir fs (get_repo_root fs) = Inr items"
  have a: "\<forall>e. get_all_skills fs = Inl e \<longleftrightarrow>
      (\<exists>pre item post. items = pre @ item # post
         \<and> (\<forall>x\<in>set pre. \<forall>e'. \<not> item_raises fs (get_repo_root fs) x e')
         \<and> item_raises fs (get_repo_root fs) item e)"
    using get_all_skills_Inl_iff[OF i] scan_items_Inl_iff[of fs "get_repo_root fs" items "[]"]
    by simp
  have b: "(\<exists>skills. get_all_skills fs = Inr skills) \<longleftrightarrow>
      (\<forall>item\<in>set items. \<forall>e. \<not> item_raises fs (get_repo_root fs) item e)"
    using get_all_skills_Inr_iff[OF i] scan_items_Inr_iff[of fs "get_repo_root fs" items "[]"]
    by simp
  have c: "\<forall>skills. get_all_skills fs = Inr skills \<longrightarrow>
         mset (map directory skills) = mset (filter (candidate fs (get_repo_root fs)) items)"
    using get_all_skills_props i by fastforce
  have d: "\<forall>p ls failure e. stat fs p = Inr (File ls failure) \<longrightarrow>
         (parse_frontmatter fs p = Inl e \<longleftrightarrow>
            failure = Some e \<and> \<not> 2 \<le> length (filter (\<lambda>l. strip l = lit ''---'') ls))"
    using parse_frontmatter_File by blast
  from a b c d show ?thesis by blast
qed

theorem get_all_skills_raises_first_error_witness:
  "get_all_skills fs_unreadable = Inl PermissionError
   \<and> get_all_skills fs_locked = Inl PermissionError
   \<and> (\<exists>skills. get_all_skills fs_late_bytes = Inr skills)"
proof -
  have i1: "iterdir fs_unreadable (get_repo_root fs_unreadable)
            = Inr ([lit ''a-skill''] @ lit ''b-skill'' # [lit ''c-skill''])"
    by (simp add: fs_unreadable_def fs_eval)
  have p1: "\<forall>x\<in>set [lit ''a-skill''].
              \<forall>e'. \<not> item_raises fs_unreadable (get_repo_root fs_unreadable) x e'"
    by (simp add: fs_unreadable_def item_raises_def fs_eval)
  have r1: "item_raises fs_unreadable (get_repo_root fs_unreadable) (lit ''b-skill'')
              PermissionError"
    by (simp add: fs_unreadable_def item_raises_def fs_eval)
  have i2: "iterdir fs_locked (get_repo_root fs_locked) = Inr ([] @ lit ''a-skill'' # [])"
    by (simp add: fs_locked_def fs_eval)
  have r2: "item_raises fs_locked (get_repo_root fs_locked) (lit ''a-skill'') PermissionError"
    by (simp add: fs_locked_def item_raises_def fs_eval)
  have i3: "iterdir fs_late_bytes (get_repo_root fs_late_bytes) = Inr [lit ''a-skill'']"
    by (simp add: fs_late_bytes_def fs_eval)
  have r3: "\<forall>item\<in>set [lit ''a-skill''].
              \<forall>e. \<not> item_raises fs_late_bytes (get_repo_root fs_late_bytes) item e"
    by (simp add: fs_late_bytes_def item_raises_def fs_eval)
  have "get_all_skills fs_unreadable = Inl PermissionError"
    using get_all_skills_raises_first_error[OF i1] p1 r1 by blast
  moreover have "get_all_skills fs_locked = Inl PermissionError"
    using get_all_skills_raises_first_error[OF i2] r2 by fastforce
  moreover have "\<exists>skills. get_all_skills fs_late_bytes = Inr skills"
    using get_all_skills_raises_first_error[OF i3] r3 by blast
  ultimately show ?thesis by blast
qed

text \<open>The second of three documents cannot be opened, and the scan returns no entry at
  all, also none for the first and the third.\<close>

theorem unreadable_document_counterexample:
  "parse_frontmatter fs_unreadable [lit ''repo'', lit ''b-skill'', lit ''SKILL.md'']
     = Inl PermissionError
   \<and> get_all_skills fs_unreadable = Inl PermissionError"
  by (simp add: fs_unreadable_def fs_eval)

text \<open>
  C8, as the code has it. When the scan returns the catalog, the search returns the
  entries of the catalog for which the lower-cased keyword is a contiguous block of the
  lower-cased name, description or activation text, in the order of the catalog, which
  is the order of the names. For a keyword and texts of Basic Latin characters these are
  the entries that contain the keyword up to the case of its letters.
\<close>

theorem search_skills_filters_catalog:
  "get_all_skills fs = Inr skills \<Longrightarrow>
   search_skills u fs keyword =
     Inr (filter (\<lambda>s. lower_contains u keyword (name s)
                       \<or> lower_contains u keyword (description s)
                       \<or> lower_contains u keyword (activation s)) skills)
   \<and> sorted (map name (filter (\<lambda>s. lower_contains u keyword (name s)
                       \<or> lower_contains u keyword (description s)
                       \<or> lower_contains u keyword (activation s)) skills))
   \<and> (ascii_table u \<and> is_ascii keyword
        \<and> (\<forall>s\<in>set skills. is_ascii (name s) \<and> is_ascii (description s)
                             \<and> is_ascii (activation s)) \<longrightarrow>
      search_skills u fs keyword =
        Inr (filter (\<lambda>s. ci_substring keyword (name s) \<or> ci_substring keyword (description s)
                          \<or> ci_substring keyword (activation s)) skills))"
proof -
  assume g: "get_all_skills fs = Inr skills"
  let ?P = "\<lambda>s. lower_contains u keyword (name s) \<or> lower_contains u keyword (description s)
                 \<or> lower_contains u keyword (activation s)"
  let ?Q = "\<lambda>s. ci_substring keyword (name s) \<or> ci_substring keyword (description s)
                 \<or> ci_substring keyword (activation s)"
  have a: "search_skills u fs keyword = Inr (filter ?P skills)"
    by (simp add: search_skills_def g Let_def lower_contains_code)
  have "sorted (map name skills)" using g by (rule get_all_skills_sorted_aux)
  then have b: "sorted (map name (filter ?P skills))" by (rule sorted_filter)
  have c: "search_skills u fs keyword = Inr (filter ?Q skills)"
    if t: "ascii_table u" and k: "is_ascii keyword"
      and s: "\<forall>s\<in>set skills. is_ascii (name s) \<and> is_ascii (description s)
                                \<and> is_ascii (activation s)"
  proof -
    have "filter ?P skills = filter ?Q skills"
    proof (rule filter_cong[OF refl])
      fix x assume "x \<in> set skills"
      with s have "is_ascii (name x)" "is_ascii (description x)" "is_ascii (activation x)"
        by simp_all
      then show "?P x = ?Q x"
        by (simp add: lower_contains_ascii[OF t k])
    qed
    with a show ?thesis by simp
  qed
  from a b c show ?thesis by blast
qed

theorem search_skills_filters_catalog_witness:
  "search_skills example_ucd fs_search (lit ''leak'')
     = Inr [\<lparr>directory = lit ''a-skill'',
              path = [lit ''repo'', lit ''a-skill'', lit ''SKILL.md''],
              name = lit ''Alpha'', description = lit ''first'', version = lit ''1.0'',
              activation = lit ''when memory LEAKS''\<rparr>]
   \<and> ci_substring (lit ''leak'') (lit ''when memory LEAKS'')
   \<and> \<not> ci_substring (lit ''leak'') (lit ''Alpha'')
   \<and> \<not> ci_substring (lit ''leak'') (lit ''first'')"
proof -
  let ?a = "\<lparr>directory = lit ''a-skill'',
              path = [lit ''repo'', lit ''a-skill'', lit ''SKILL.md''],
              name = lit ''Alpha'', description = lit ''first'', version = lit ''1.0'',
              activation = lit ''when memory LEAKS''\<rparr>"
  let ?b = "\<lparr>directory = lit ''b-skill'',
              path = [lit ''repo'', lit ''b-skill'', lit ''SKILL.md''],
              name = lit ''Beta'', description = lit ''second'', version = lit ''1.0'',
              activation = lit ''never''\<rparr>"
  have g: "get_all_skills fs_search = Inr [?a, ?b]"
    by (simp add: fs_search_def fs_eval)
  have c: "\<not> lower_contains example_ucd (lit ''leak'') (lit ''Alpha'')"
    "\<not> lower_contains example_ucd (lit ''leak'') (lit ''first'')"
    "lower_contains example_ucd (lit ''leak'') (lit ''when memory LEAKS'')"
    "\<not> lower_contains example_ucd (lit ''leak'') (lit ''Beta'')"
    "\<not> lower_contains example_ucd (lit ''leak'') (lit ''second'')"
    "\<not> lower_contains example_ucd (lit ''leak'') (lit ''never'')"
    by code_simp+
  have k: "is_ascii (lit ''leak'')" by (simp add: is_ascii_def)
  have t: "is_ascii (lit ''Alpha'')" "is_ascii (lit ''first'')"
    "is_ascii (lit ''when memory LEAKS'')"
    by (simp_all add: is_ascii_def)
  have "search_skills example_ucd fs_search (lit ''leak'') = Inr [?a]"
    using search_skills_filters_catalog[OF g, of example_ucd "lit ''leak''"] c by simp
  then show ?thesis
    using c lower_contains_ascii[OF ascii_table_example k] t by simp
qed

text \<open>The catalog holds the Greek word in capitals, which ends in the capital sigma,
  and the small sigma. The search for the capital sigma returns the second and not the
  first, whose name contains the keyword as it stands.\<close>

theorem final_sigma_search_counterexample:
  "map name (projr (get_all_skills fs_greek)) = [odos, small_sigma]
   \<and> str_in capital_sigma odos
   \<and> lower example_ucd odos = [959, 948, 959, 962]
   \<and> lower example_ucd capital_sigma = [963]
   \<and> map name (projr (search_skills example_ucd fs_greek capital_sigma)) = [small_sigma]"
proof -
  have g: "get_all_skills fs_greek =
           Inr [\<lparr>directory = lit ''a-skill'',
                  path = [lit ''repo'', lit ''a-skill'', lit ''SKILL.md''],
                  name = odos, description = lit ''No description'',
                  version = lit ''1.0'', activation = lit ''''\<rparr>,
                \<lparr>directory = lit ''b-skill'',
                  path = [lit ''repo'', lit ''b-skill'', lit ''SKILL.md''],
                  name = small_sigma, description = lit ''No description'',
                  version = lit ''1.0'', activation = lit ''''\<rparr>]"
    by (simp add: fs_greek_def odos_def small_sigma_def fs_eval)
  have l: "str_in capital_sigma odos" "lower example_ucd odos = [959, 948, 959, 962]"
    "lower example_ucd capital_sigma = [963]" "lower example_ucd small_sigma = [963]"
    by (simp_all add: capital_sigma_def odos_def small_sigma_def lower_eval)
  have d: "\<not> str_in [963] (lower example_ucd (lit ''No description''))"
    "\<not> str_in [963] (lower example_ucd (lit ''''))"
    by (simp_all add: lower_eval)
  have s: "search_skills example_ucd fs_greek capital_sigma =
           Inr [\<lparr>directory = lit ''b-skill'',
                  path = [lit ''repo'', lit ''b-skill'', lit ''SKILL.md''],
                  name = small_sigma, description = lit ''No description'',
                  version = lit ''1.0'', activation = lit ''''\<rparr>]"
    using d by (simp add: search_skills_def g l Let_def)
  from g l s show ?thesis by simp
qed

text \<open>
  C3, as the code has it. When neither the path named by the input nor, for an input
  that does not end in \<open>-skill\<close>, the path named by the input with \<open>-skill\<close> appended
  holds a document, and the scan returns the catalog, the resolver returns the path of
  the first entry of the catalog for which the lower-cased input is a contiguous block
  of the lower-cased name, and no path when there is no such entry; the catalog is in
  the order of the names. For an input and names of Basic Latin characters this is the
  first entry whose name contains the input up to the case of its letters.
\<close>

theorem find_skill_path_fuzzy_first:
  "holds_document fs (joinpath (get_repo_root fs) n) = Inr False \<Longrightarrow>
   endswith n (lit ''-skill'')
     \<or> holds_document fs (joinpath (get_repo_root fs) (n @ lit ''-skill'')) = Inr False \<Longrightarrow>
   get_all_skills fs = Inr skills \<Longrightarrow>
   find_skill_path u fs n
     = Inr (map_option path (find (\<lambda>s. lower_contains u n (name s)) skills))
   \<and> sorted (map name skills)
   \<and> (ascii_table u \<and> is_ascii n \<and> (\<forall>s\<in>set skills. is_ascii (name s)) \<longrightarrow>
      find_skill_path u fs n
        = Inr (map_option path (find (\<lambda>s. ci_substring n (name s)) skills)))"
proof -
  assume e: "holds_document fs (joinpath (get_repo_root fs) n) = Inr False"
    and s: "endswith n (lit ''-skill'')
     \<or> holds_document fs (joinpath (get_repo_root fs) (n @ lit ''-skill'')) = Inr False"
    and g: "get_all_skills fs = Inr skills"
  have "find_skill_path u fs n = fuzzy_match u fs n"
    using e s by (auto simp: find_skill_path_def Let_def)
  also have "\<dots> = Inr (map_option path (find (\<lambda>s. lower_contains u n (name s)) skills))"
    by (simp add: fuzzy_match_def g fuzzy_loop_find)
  finally have a:
    "find_skill_path u fs n
       = Inr (map_option path (find (\<lambda>s. lower_contains u n (name s)) skills))" .
  have c: "find_skill_path u fs n
             = Inr (map_option path (find (\<lambda>s. ci_substring n (name s)) skills))"
    if t: "ascii_table u" and k: "is_ascii n" and ns: "\<forall>s\<in>set skills. is_ascii (name s)"
  proof -
    have "find (\<lambda>s. lower_contains u n (name s)) skills
          = find (\<lambda>s. ci_substring n (name s)) skills"
    proof (rule find_cong[OF refl])
      fix x assume "x \<in> set skills"
      with ns have "is_ascii (name x)" by simp
      then show "lower_contains u n (name x) = ci_substring n (name x)"
        by (rule lower_contains_ascii[OF t k])
    qed
    with a show ?thesis by simp
  qed
  from a c get_all_skills_sorted_aux[OF g] show ?thesis by blast
qed

theorem find_skill_path_fuzzy_first_witness:
  "map name (projr (get_all_skills fs_fuzzy)) = [lit ''Another great one'', lit ''Great Tool'']
   \<and> ci_substring (lit ''GREAT'') (lit ''Another great one'')
   \<and> ci_substring (lit ''GREAT'') (lit ''Great Tool'')
   \<and> find_skill_path example_ucd fs_fuzzy (lit ''GREAT'')
       = Inr (Some [lit ''repo'', lit ''h-skill'', lit ''SKILL.md''])"
proof -
  have e: "holds_document fs_fuzzy (joinpath (get_repo_root fs_fuzzy) (lit ''GREAT''))
           = Inr False"
    by (simp add: fs_fuzzy_def fs_eval joinpath_def parts_def)
  have s: "endswith (lit ''GREAT'') (lit ''-skill'')
     \<or> holds_document fs_fuzzy (joinpath (get_repo_root fs_fuzzy) (lit ''GREAT'' @ lit ''-skill''))
         = Inr False"
    by (simp add: fs_fuzzy_def fs_eval joinpath_def parts_def)
  have g: "get_all_skills fs_fuzzy =
           Inr [\<lparr>directory = lit ''h-skill'',
                  path = [lit ''repo'', lit ''h-skill'', lit ''SKILL.md''],
                  name = lit ''Another great one'', description = lit ''No description'',
                  version = lit ''1.0'', activation = lit ''''\<rparr>,
                \<lparr>directory = lit ''g-skill'',
                  path = [lit ''repo'', lit ''g-skill'', lit ''SKILL.md''],
                  name = lit ''Great Tool'', description = lit ''No description'',
                  version = lit ''1.0'', activation = lit ''''\<rparr>]"
    by (simp add: fs_fuzzy_def fs_eval)
  have c: "lower_contains example_ucd (lit ''GREAT'') (lit ''Another great one'')"
    "lower_contains example_ucd (lit ''GREAT'') (lit ''Great Tool'')"
    by code_simp+
  have k: "is_ascii (lit ''GREAT'')" by (simp add: is_ascii_def)
  have t: "is_ascii (lit ''Another great one'')" "is_ascii (lit ''Great Tool'')"
    by (simp_all add: is_ascii_def)
  have "find_skill_path example_ucd fs_fuzzy (lit ''GREAT'')
          = Inr (Some [lit ''repo'', lit ''h-skill'', lit ''SKILL.md''])"
    using find_skill_path_fuzzy_first[OF e s g, of example_ucd] c by simp
  then show ?thesis
    using c g lower_contains_ascii[OF ascii_table_example k] t by simp
qed

text \<open>No directory is named by the capital sigma. The first entry of the catalog is the
  Greek word in capitals, whose name contains the input as it stands, and the resolver
  passes it over and returns the second.\<close>

theorem final_sigma_resolve_counterexample:
  "holds_document fs_greek (joinpath (get_repo_root fs_greek) capital_sigma) = Inr False
   \<and> holds_document fs_greek (joinpath (get_repo_root fs_greek) (capital_sigma @ lit ''-skill''))
       = Inr False
   \<and> map name (projr (get_all_skills fs_greek)) = [odos, small_sigma]
   \<and> str_in capital_sigma odos
   \<and> find_skill_path example_ucd fs_greek capital_sigma
       = Inr (Some [lit ''repo'', lit ''b-skill'', lit ''SKILL.md''])"
proof -
  have e: "holds_document fs_greek (joinpath (get_repo_root fs_greek) capital_sigma) = Inr False"
    "holds_document fs_greek (joinpath (get_repo_root fs_greek) (capital_sigma @ lit ''-skill''))
       = Inr False"
    by (simp_all add: fs_greek_def capital_sigma_def fs_eval joinpath_def parts_def)
  have g: "get_all_skills fs_greek =
           Inr [\<lparr>directory = lit ''a-skill'',
                  path = [lit ''repo'', lit ''a-skill'', lit ''SKILL.md''],
                  name = odos, description = lit ''No description'',
                  version = lit ''1.0'', activation = lit ''''\<rparr>,
                \<lparr>directory = lit ''b-skill'',
                  path = [lit ''repo'', lit ''b-skill'', lit ''SKILL.md''],
                  name = small_sigma, description = lit ''No description'',
                  version = lit ''1.0'', activation = lit ''''\<rparr>]"
    by (simp add: fs_greek_def odos_def small_sigma_def fs_eval)
  have l: "str_in capital_sigma odos" "lower example_ucd odos = [959, 948, 959, 962]"
    "lower example_ucd capital_sigma = [963]" "lower example_ucd small_sigma = [963]"
    by (simp_all add: capital_sigma_def odos_def small_sigma_def lower_eval)
  have n: "\<not> endswith capital_sigma (lit ''-skill'')"
    by (simp add: capital_sigma_def endswith_def)
  have "find_skill_path example_ucd fs_greek capital_sigma
          = Inr (Some [lit ''repo'', lit ''b-skill'', lit ''SKILL.md''])"
    using e n by (simp add: find_skill_path_def fuzzy_match_def g l Let_def)
  with e g l show ?thesis by simp
qed

text \<open>
  C9. When the root itself holds no document, the root holds no document in a child
  named \<open>-skill\<close>, and the scan returns a catalog that is not empty, resolving the empty
  string returns the path of the first entry of the catalog.
\<close>

theorem find_skill_path_empty_name:
  "exists fs (get_repo_root fs @ [lit ''SKILL.md'']) = Inr False \<Longrightarrow>
   exists fs (get_repo_root fs @ [lit ''-skill'', lit ''SKILL.md'']) = Inr False \<Longrightarrow>
   get_all_skills fs = Inr (s # ss) \<Longrightarrow>
   find_skill_path u fs (lit '''') = Inr (Some (path s))"
proof -
  assume a: "exists fs (get_repo_root fs @ [lit ''SKILL.md'']) = Inr False"
    and b: "exists fs (get_repo_root fs @ [lit ''-skill'', lit ''SKILL.md'']) = Inr False"
    and g: "get_all_skills fs = Inr (s # ss)"
  have h1: "holds_document fs (get_repo_root fs) = Inr False"
    using a by (rule holds_document_False)
  have "exists fs ((get_repo_root fs @ [lit ''-skill'']) @ [lit ''SKILL.md'']) = Inr False"
    using b by simp
  then have h2: "holds_document fs (get_repo_root fs @ [lit ''-skill'']) = Inr False"
    by (rule holds_document_False)
  have j: "joinpath (get_repo_root fs) (lit ''-skill'') = get_repo_root fs @ [lit ''-skill'']"
    using joinpath_suffixed[of "[]" "get_repo_root fs"] by simp
  have "find_skill_path u fs [] = fuzzy_match u fs []"
    using h1 h2 j by (simp add: find_skill_path_def Let_def joinpath_empty endswith_def)
  also have "\<dots> = Inr (Some (path s))"
    by (simp add: fuzzy_match_def g lower_Nil str_in_Nil)
  finally show ?thesis by simp
qed

theorem find_skill_path_empty_name_witness:
  "map name (projr (get_all_skills fs_names)) = [lit ''Beta'', lit ''Zeta'', lit ''alpha'']
   \<and> find_skill_path example_ucd fs_names (lit '''')
       = Inr (Some [lit ''repo'', lit ''b-skill'', lit ''SKILL.md''])"
proof -
  have a: "exists fs_names (get_repo_root fs_names @ [lit ''SKILL.md'']) = Inr False"
    by (simp add: fs_names_def fs_eval)
  have b: "exists fs_names (get_repo_root fs_names @ [lit ''-skill'', lit ''SKILL.md''])
           = Inr False"
    by (simp add: fs_names_def fs_eval)
  have g: "get_all_skills fs_names =
           Inr (\<lparr>directory = lit ''b-skill'',
                  path = [lit ''repo'', lit ''b-skill'', lit ''SKILL.md''],
                  name = lit ''Beta'', description = lit ''No description'',
                  version = lit ''1.0'', activation = lit ''''\<rparr> #
                [\<lparr>directory = lit ''z-skill'',
                  path = [lit ''repo'', lit ''z-skill'', lit ''SKILL.md''],
                  name = lit ''Zeta'', description = lit ''No description'',
                  version = lit ''1.0'', activation = lit ''''\<rparr>,
                \<lparr>directory = lit ''a-skill'',
                  path = [lit ''repo'', lit ''a-skill'', lit ''SKILL.md''],
                  name = lit ''alpha'', description = lit ''No description'',
                  version = lit ''1.0'', activation = lit ''''\<rparr>])"
    by (simp add: fs_names_def fs_eval)
  from find_skill_path_empty_name[OF a b g, of example_ucd] show ?thesis by (simp add: g)
qed

text \<open>
  C4, as the code has it. When the root holds a directory \<open>foo-skill\<close> with a document,
  resolving \<open>foo-skill\<close> returns the path of that document, and resolving \<open>foo\<close> returns
  it too when \<open>foo\<close> does not end in \<open>-skill\<close> and the path named \<open>foo\<close> holds no document
  itself. For an input that ends in \<open>-skill\<close> and names no path with a document, the
  resolver goes on to the catalog without trying the input with \<open>-skill\<close> appended.
\<close>

theorem find_skill_path_suffix:
  "cp CHR ''/'' \<notin> set foo \<Longrightarrow>
   exists fs (get_repo_root fs @ [foo @ lit ''-skill'', lit ''SKILL.md'']) = Inr True \<Longrightarrow>
   find_skill_path u fs (foo @ lit ''-skill'')
     = Inr (Some (get_repo_root fs @ [foo @ lit ''-skill'', lit ''SKILL.md'']))
   \<and> (\<not> endswith foo (lit ''-skill'')
        \<and> holds_document fs (joinpath (get_repo_root fs) foo) = Inr False \<longrightarrow>
      find_skill_path u fs foo
        = Inr (Some (get_repo_root fs @ [foo @ lit ''-skill'', lit ''SKILL.md''])))
   \<and> (\<forall>n. endswith n (lit ''-skill'')
            \<and> holds_document fs (joinpath (get_repo_root fs) n) = Inr False \<longrightarrow>
      find_skill_path u fs n = fuzzy_match u fs n)"
proof -
  assume f: "cp CHR ''/'' \<notin> set foo"
    and d: "exists fs (get_repo_root fs @ [foo @ lit ''-skill'', lit ''SKILL.md'']) = Inr True"
  have j: "joinpath (get_repo_root fs) (foo @ lit ''-skill'')
           = get_repo_root fs @ [foo @ lit ''-skill'']"
    using f by (rule joinpath_suffixed)
  have "exists fs ((get_repo_root fs @ [foo @ lit ''-skill'']) @ [lit ''SKILL.md'']) = Inr True"
    using d by simp
  then have h: "holds_document fs (get_repo_root fs @ [foo @ lit ''-skill'']) = Inr True"
    by (rule holds_document_True)
  have a: "find_skill_path u fs (foo @ lit ''-skill'')
           = Inr (Some (get_repo_root fs @ [foo @ lit ''-skill'', lit ''SKILL.md'']))"
    using h j by (simp add: find_skill_path_def Let_def)
  have b: "\<not> endswith foo (lit ''-skill'')
        \<and> holds_document fs (joinpath (get_repo_root fs) foo) = Inr False \<longrightarrow>
      find_skill_path u fs foo
        = Inr (Some (get_repo_root fs @ [foo @ lit ''-skill'', lit ''SKILL.md'']))"
    using h j by (simp add: find_skill_path_def Let_def)
  have c: "\<forall>n. endswith n (lit ''-skill'')
            \<and> holds_document fs (joinpath (get_repo_root fs) n) = Inr False \<longrightarrow>
      find_skill_path u fs n = fuzzy_match u fs n"
    by (simp add: find_skill_path_def Let_def)
  from a b c show ?thesis by blast
qed

theorem find_skill_path_suffix_witness:
  "find_skill_path example_ucd fs_names (lit ''z-skill'')
     = Inr (Some [lit ''repo'', lit ''z-skill'', lit ''SKILL.md''])
   \<and> find_skill_path example_ucd fs_names (lit ''z'')
       = Inr (Some [lit ''repo'', lit ''z-skill'', lit ''SKILL.md''])"
proof -
  have f: "cp CHR ''/'' \<notin> set (lit ''z'')" by simp
  have d: "exists fs_names (get_repo_root fs_names @ [lit ''z'' @ lit ''-skill'', lit ''SKILL.md''])
           = Inr True"
    by (simp add: fs_names_def fs_eval)
  have n: "\<not> endswith (lit ''z'') (lit ''-skill'')
        \<and> holds_document fs_names (joinpath (get_repo_root fs_names) (lit ''z'')) = Inr False"
    by (simp add: fs_names_def fs_eval joinpath_def parts_def)
  from find_skill_path_suffix[OF f d, of example_ucd] n show ?thesis
    by (simp add: get_repo_root_def fs_names_def repo_with_def)
qed

text \<open>Beside \<open>foo-skill\<close> stands a directory \<open>foo\<close> with a document of its own, and
  resolving \<open>foo\<close> returns that one.\<close>

theorem plain_directory_first_counterexample:
  "exists fs_plain [lit ''repo'', lit ''foo-skill'', lit ''SKILL.md''] = Inr True
   \<and> find_skill_path example_ucd fs_plain (lit ''foo'')
       = Inr (Some [lit ''repo'', lit ''foo'', lit ''SKILL.md''])
   \<and> find_skill_path example_ucd fs_plain (lit ''foo'')
       \<noteq> Inr (Some [lit ''repo'', lit ''foo-skill'', lit ''SKILL.md''])"
  by (simp add: fs_plain_def fs_eval find_skill_path_def joinpath_def parts_def)



end
